theory Spec2Isabelle
  imports Complex_Main "HOL-Library.Sublist"
begin

section \<open>Significance analyzer (data\_processer.py)\<close>

subsection \<open>The loaded JSON document\<close>

text \<open>
  \<open>SignificanceAnalyzer.__init__\<close> stores the result of \<open>json.load\<close> in \<open>self.data\<close>.
  The value is modelled as it is after loading: an object is an association list whose
  keys are distinct (lookup is \<open>map_of\<close>), a number is a Python \<open>int\<close> or a finite
  \<open>float\<close> (held by its exact rational value).
\<close>

datatype json =
    JNull
  | JBool bool
  | JInt int
  | JFloat rat
  | JStr string
  | JList "json list"
  | JDict "(string \<times> json) list"

datatype py_error = KeyError string | TypeError

text \<open>\<open>obj[key]\<close> with a string key: only a dict can be subscripted by a string.\<close>

fun subscript :: "json \<Rightarrow> string \<Rightarrow> py_error + json" where
  "subscript (JDict kvs) key =
     (case map_of kvs key of None \<Rightarrow> Inl (KeyError key) | Some v \<Rightarrow> Inr v)"
| "subscript _ key = Inl TypeError"

text \<open>\<open>for result in obj\<close>: a list yields its items, a dict its keys, a string its characters.\<close>

fun py_iter :: "json \<Rightarrow> py_error + json list" where
  "py_iter (JList xs) = Inr xs"
| "py_iter (JDict kvs) = Inr (map (\<lambda>kv. JStr (fst kv)) kvs)"
| "py_iter (JStr s) = Inr (map (\<lambda>c. JStr [c]) s)"
| "py_iter _ = Inl TypeError"

text \<open>\<open>v < threshold\<close> for an integer threshold: numbers and booleans compare, the rest raises.\<close>

fun py_less_int :: "json \<Rightarrow> int \<Rightarrow> py_error + bool" where
  "py_less_int (JInt c) t = Inr (c < t)"
| "py_less_int (JFloat q) t = Inr (q < of_int t)"
| "py_less_int (JBool b) t = Inr ((if b then 1 else 0) < t)"
| "py_less_int _ t = Inl TypeError"

text \<open>Truth value of a loaded JSON value in \<open>if v:\<close>.\<close>

fun truthy :: "json \<Rightarrow> bool" where
  "truthy JNull = False"
| "truthy (JBool b) = b"
| "truthy (JInt i) = (i \<noteq> 0)"
| "truthy (JFloat q) = (q \<noteq> 0)"
| "truthy (JStr s) = (s \<noteq> [])"
| "truthy (JList xs) = (xs \<noteq> [])"
| "truthy (JDict kvs) = (kvs \<noteq> [])"

subsection \<open>\<open>_count_results\<close>\<close>

text \<open>The body of the \<open>for\<close> loop, threaded through the two counters; the first raise ends it.\<close>

fun count_loop :: "int \<Rightarrow> json list \<Rightarrow> nat \<times> nat \<Rightarrow> py_error + nat \<times> nat" where
  "count_loop threshold [] (true_count, false_count) = Inr (true_count, false_count)"
| "count_loop threshold (result # rest) (true_count, false_count) =
     (case subscript result ''context_count'' of
        Inl e \<Rightarrow> Inl e
      | Inr cc \<Rightarrow>
          (case py_less_int cc threshold of
             Inl e \<Rightarrow> Inl e
           | Inr below \<Rightarrow>
               if below then
                 (case subscript result ''is_significant'' of
                    Inl e \<Rightarrow> Inl e
                  | Inr sig \<Rightarrow>
                      if truthy sig then count_loop threshold rest (true_count + 1, false_count)
                      else count_loop threshold rest (true_count, false_count + 1))
               else count_loop threshold rest (true_count, false_count)))"

fun has_significance_results :: "json \<Rightarrow> bool" where
  "has_significance_results (JDict kvs) = (map_of kvs ''significance_results'' \<noteq> None)"
| "has_significance_results _ = False"

definition count_results :: "json \<Rightarrow> int \<Rightarrow> py_error + nat \<times> nat \<times> nat" where
  "count_results data threshold =
     (if has_significance_results data then
        (case subscript data ''significance_results'' of
           Inl e \<Rightarrow> Inl e
         | Inr rs \<Rightarrow>
             (case py_iter rs of
                Inl e \<Rightarrow> Inl e
              | Inr items \<Rightarrow>
                  (case count_loop threshold items (0, 0) of
                     Inl e \<Rightarrow> Inl e
                   | Inr (true_count, false_count) \<Rightarrow>
                       Inr (true_count + false_count, true_count, false_count))))
      else Inr (0 + 0, 0, 0))"

subsection \<open>\<open>analyze_by_threshold\<close>\<close>

text \<open>
  The returned dict has five fixed keys and is modelled as a record. \<open>percentage\<close> is the
  integer \<open>0\<close> or the quotient \<open>true_count/total*100\<close>; the quotient is taken in exact
  rational arithmetic (the rounding of Python's binary floats is not modelled).
\<close>

record threshold_stat =
  threshold :: int
  total :: nat
  true_count :: nat
  false_count :: nat
  percentage :: rat

definition analyze_by_threshold :: "json \<Rightarrow> int \<Rightarrow> py_error + threshold_stat" where
  "analyze_by_threshold data t =
     (case count_results data t of
        Inl e \<Rightarrow> Inl e
      | Inr (tot, tc, fc) \<Rightarrow>
          Inr \<lparr>threshold = t, total = tot, true_count = tc, false_count = fc,
               percentage = (if tot > 0 then of_nat tc / of_nat tot * 100 else 0)\<rparr>)"

subsection \<open>\<open>analyze_all_thresholds\<close>\<close>

text \<open>
  The \<open>while True\<close> loop with its three variables. The loop has no bound, so it is a
  partial function: \<open>None\<close> is the run that never returns, \<open>Some (Inl e)\<close> a raise,
  \<open>Some (Inr results)\<close> the returned list.
\<close>

partial_function (option) analyze_all_thresholds_loop ::
  "json \<Rightarrow> int \<Rightarrow> nat \<Rightarrow> threshold_stat list \<Rightarrow> (py_error + threshold_stat list) option"
where
  "analyze_all_thresholds_loop data t prev_total results =
     (case analyze_by_threshold data t of
        Inl e \<Rightarrow> Some (Inl e)
      | Inr stats \<Rightarrow>
          if total stats = prev_total \<and> total stats > 0 then Some (Inr results)
          else analyze_all_thresholds_loop data (t + 1) (total stats) (results @ [stats]))"

declare analyze_all_thresholds_loop.simps [code]

definition analyze_all_thresholds ::
  "json \<Rightarrow> int \<Rightarrow> (py_error + threshold_stat list) option" where
  "analyze_all_thresholds data start_threshold =
     analyze_all_thresholds_loop data start_threshold 0 []"

subsection \<open>\<open>calculate_statistics\<close>\<close>

record summary_stat =
  average_percentage :: rat
  variance :: rat

text \<open>Python's \<open>sum\<close>: a left fold of \<open>+\<close> from \<open>0\<close>.\<close>

definition py_sum :: "rat list \<Rightarrow> rat" where
  "py_sum xs = foldl (+) 0 xs"

definition calculate_statistics :: "threshold_stat list \<Rightarrow> summary_stat option" where
  "calculate_statistics results =
     (let percentages = map percentage results in
      if percentages = [] then None
      else
        (let avg = py_sum percentages / of_nat (length percentages);
             var = py_sum (map (\<lambda>x. (x - avg) ^ 2) percentages) / of_nat (length percentages)
         in Some \<lparr>average_percentage = avg, variance = var\<rparr>))"

subsection \<open>Well-formed analyzer input\<close>

text \<open>
  A SignificanceRecord as the judgment step writes it (\<open>judge.py\<close>, \<open>_process_contexts\<close> and
  \<open>_save_results\<close>): a file name, a count of contexts and a boolean, under the key
  \<open>significance_results\<close>.
\<close>

record significance_record =
  rec_file_name :: string
  context_count :: nat
  is_significant :: bool

definition encode_record :: "significance_record \<Rightarrow> json" where
  "encode_record r =
     JDict [(''file_name'', JStr (rec_file_name r)),
            (''context_count'', JInt (int (context_count r))),
            (''is_significant'', JBool (is_significant r))]"

definition encode_records :: "significance_record list \<Rightarrow> json" where
  "encode_records rs = JDict [(''significance_results'', JList (map encode_record rs))]"

text \<open>The records admitted by a threshold.\<close>

definition below :: "int \<Rightarrow> significance_record list \<Rightarrow> significance_record list" where
  "below t rs = filter (\<lambda>r. int (context_count r) < t) rs"

text \<open>The statistic of one threshold, written from the record set.\<close>

definition stat_of :: "significance_record list \<Rightarrow> int \<Rightarrow> threshold_stat" where
  "stat_of rs t =
     \<lparr>threshold = t, total = length (below t rs),
      true_count = length (filter is_significant (below t rs)),
      false_count = length (filter (\<lambda>r. \<not> is_significant r) (below t rs)),
      percentage =
        (if length (below t rs) > 0
         then of_nat (length (filter is_significant (below t rs))) / of_nat (length (below t rs)) * 100
         else 0)\<rparr>"

text \<open>
  A threshold is a plateau when it admits as many records as the threshold before it,
  and at least one: the test of the \<open>break\<close> in the sweep.
\<close>

definition plateau :: "significance_record list \<Rightarrow> int \<Rightarrow> bool" where
  "plateau rs t = (length (below t rs) = length (below (t - 1) rs) \<and> length (below t rs) > 0)"

text \<open>The two records of the end-to-end scenario.\<close>

definition scenario_records :: "significance_record list" where
  "scenario_records =
     [\<lparr>rec_file_name = ''A'', context_count = 1, is_significant = True\<rparr>,
      \<lparr>rec_file_name = ''B'', context_count = 3, is_significant = False\<rparr>]"

text \<open>
  The shape the sweep's result would have if the stabilizing statistic were appended:
  at least two entries, the last one repeating the total of the one before it, that
  total being positive.
\<close>

definition stabilizing_entry_last :: "threshold_stat list \<Rightarrow> bool" where
  "stabilizing_entry_last ys =
     (2 \<le> length ys \<and> total (last ys) = total (last (butlast ys)) \<and> total (last ys) > 0)"

text \<open>Arithmetic mean and population variance, as the words define them.\<close>

definition mean :: "rat list \<Rightarrow> rat" where
  "mean xs = sum_list xs / of_nat (length xs)"

definition population_variance :: "rat list \<Rightarrow> rat" where
  "population_variance xs = (\<Sum>x\<leftarrow>xs. (x - mean xs) ^ 2) / of_nat (length xs)"

text \<open>
  An input whose \<open>significance_results\<close> list holds well-formed records \<open>rs\<close>, then one
  arbitrary object \<open>kvs\<close>, then arbitrary items.
\<close>

definition malformed_at ::
  "significance_record list \<Rightarrow> (string \<times> json) list \<Rightarrow> json list \<Rightarrow> json" where
  "malformed_at rs kvs rest =
     JDict [(''significance_results'', JList (map encode_record rs @ JDict kvs # rest))]"

section \<open>Context extractor (related\_content\_extractor.py)\<close>

subsection \<open>Python string operations\<close>

text \<open>
  A Python \<open>str\<close> is modelled as a \<open>string\<close>, one \<open>char\<close> per character. \<open>s[a:b]\<close> with
  integer bounds: a negative bound counts from the end, and both are clamped to the string.
\<close>

definition slice_index :: "nat \<Rightarrow> int \<Rightarrow> nat" where
  "slice_index n i = (if i < 0 then nat (max 0 (int n + i)) else min n (nat i))"

definition py_slice :: "'a list \<Rightarrow> int \<Rightarrow> int \<Rightarrow> 'a list" where
  "py_slice xs a b =
     (let lo = slice_index (length xs) a; hi = slice_index (length xs) b
      in take (hi - lo) (drop lo xs))"

text \<open>
  \<open>s.find(sub, start)\<close> for \<open>start \<ge> 0\<close>: the lowest index at or after \<open>start\<close> where
  \<open>sub\<close> begins, \<open>None\<close> for Python's \<open>-1\<close>. The empty string is found at every index up to
  and including \<open>len(s)\<close>.
\<close>

fun find_from :: "'a list \<Rightarrow> 'a list \<Rightarrow> nat \<Rightarrow> nat option" where
  "find_from sub [] p = (if sub = [] then Some p else None)"
| "find_from sub (c # cs) p =
     (if prefix sub (c # cs) then Some p else find_from sub cs (Suc p))"

definition str_find :: "'a list \<Rightarrow> 'a list \<Rightarrow> nat \<Rightarrow> nat option" where
  "str_find s sub start =
     (if start > length s then None else find_from sub (drop start s) start)"




subsection \<open>The extractor and its matches\<close>

text \<open>One entry of \<open>self.matches\<close>; the key \<open>context\<close> is the field \<open>match_context\<close>.\<close>

record match_entry =
  file_name :: string
  match_type :: string
  match_term :: string
  match_context :: string

record content_extractor =
  input_dir :: string
  output_file :: string
  context_length :: int
  loose_match_length :: int
  matches :: "match_entry list"


subsection \<open>\<open>_add_match\<close>\<close>

definition add_match ::
  "content_extractor \<Rightarrow> string \<Rightarrow> int \<Rightarrow> int \<Rightarrow> string \<Rightarrow> string \<Rightarrow> string
     \<Rightarrow> content_extractor" where
  "add_match self content start endp term txt_file mtype =
     (let context_start = max 0 (start - context_length self);
          context_end = min (int (length content)) (endp + context_length self)
      in self\<lparr>matches := matches self @
           [\<lparr>file_name = txt_file, match_type = mtype, match_term = term,
             match_context = py_slice content context_start context_end\<rparr>]\<rparr>)"

subsection \<open>\<open>_loose_match\<close>\<close>




subsection \<open>\<open>_exact_match\<close>\<close>

text \<open>
  The \<open>while True\<close> loop over \<open>start_pos\<close>. It has no bound of its own, so it is a partial
  function; \<open>None\<close> is the run that never returns.
\<close>

partial_function (option) exact_loop ::
  "content_extractor \<Rightarrow> string \<Rightarrow> string \<Rightarrow> string \<Rightarrow> string \<Rightarrow> string \<Rightarrow> nat
     \<Rightarrow> content_extractor option" where
  "exact_loop self content search_content search_term term txt_file start_pos =
     (case str_find search_content search_term start_pos of
        None \<Rightarrow> Some self
      | Some pos \<Rightarrow>
          exact_loop
            (add_match self content (int pos) (int pos + int (length term)) term txt_file
               ''exact_match'')
            content search_content search_term term txt_file (pos + length term))"

declare exact_loop.simps [code]

definition exact_match ::
  "(string \<Rightarrow> string) \<Rightarrow> content_extractor \<Rightarrow> string \<Rightarrow> string \<Rightarrow> string \<Rightarrow> string \<Rightarrow> bool
     \<Rightarrow> content_extractor option" where
  "exact_match lower self content search_content term txt_file case_sensitive =
     (let search_term = (if case_sensitive then term else lower term)
      in exact_loop self content search_content search_term term txt_file 0)"

subsection \<open>\<open>_process_file\<close>, \<open>_save_results\<close>, \<open>extract_content\<close>\<close>

text \<open>
  A text file is its name with the result of reading it: \<open>None\<close> when \<open>open\<close> or \<open>read\<close>
  raises, which \<open>_process_file\<close> catches and reports, leaving the extractor as it is.
\<close>

type_synonym txt_file = "string \<times> string option"






subsection \<open>Notions used in the statements about the extractor\<close>

text \<open>The entry \<open>_add_match\<close> appends, with the context as the code slices it.\<close>

definition match_of :: "int \<Rightarrow> string \<Rightarrow> int \<Rightarrow> int \<Rightarrow> string \<Rightarrow> string \<Rightarrow> string \<Rightarrow> match_entry" where
  "match_of W content start endp term txt_file mtype =
     \<lparr>file_name = txt_file, match_type = mtype, match_term = term,
      match_context = py_slice content (max 0 (start - W)) (min (int (length content)) (endp + W))\<rparr>"



text \<open>\<open>sub\<close> occurs in \<open>s\<close> at offset \<open>p\<close>.\<close>

definition occurs_at :: "string \<Rightarrow> string \<Rightarrow> nat \<Rightarrow> bool" where
  "occurs_at s sub p = (p \<le> length s \<and> prefix sub (drop p s))"

text \<open>
  Repeated leftmost-first search: \<open>ps\<close> are the offsets found when each search resumes
  \<open>step\<close> characters after the previous find, until a search finds nothing.
\<close>

fun greedy_from :: "string \<Rightarrow> string \<Rightarrow> nat \<Rightarrow> nat \<Rightarrow> nat list \<Rightarrow> bool" where
  "greedy_from s sub step start [] = (str_find s sub start = None)"
| "greedy_from s sub step start (p # ps) =
     (str_find s sub start = Some p \<and> greedy_from s sub step (p + step) ps)"



section \<open>Properties of the analyzer\<close>

subsection \<open>Counting on well-formed input\<close>

lemma subscript_encode_record:
  "subscript (encode_record r) ''context_count'' = Inr (JInt (int (context_count r)))"
  "subscript (encode_record r) ''is_significant'' = Inr (JBool (is_significant r))"
  by (simp_all add: encode_record_def)

lemma count_loop_encode:
  "count_loop t (map encode_record rs) (tc, fc) =
     Inr (tc + length (filter is_significant (below t rs)),
          fc + length (filter (\<lambda>r. \<not> is_significant r) (below t rs)))"
  by (induction rs arbitrary: tc fc) (simp_all add: subscript_encode_record below_def)

lemma length_split_significant:
  "length (filter is_significant xs) + length (filter (\<lambda>r. \<not> is_significant r) xs) = length xs"
  by (induction xs) simp_all

lemma count_results_encode:
  "count_results (encode_records rs) t =
     Inr (length (below t rs), length (filter is_significant (below t rs)),
          length (filter (\<lambda>r. \<not> is_significant r) (below t rs)))"
  by (simp add: count_results_def encode_records_def count_loop_encode length_split_significant)

lemma analyze_by_threshold_encode:
  "analyze_by_threshold (encode_records rs) t = Inr (stat_of rs t)"
  by (simp add: analyze_by_threshold_def count_results_encode stat_of_def)

text \<open>
  Claim C8. For every record set and integer threshold, \<open>analyze_by_threshold\<close> raises
  nothing and returns the statistic that counts exactly the records whose
  \<open>context_count\<close> is strictly below the threshold: \<open>true_count\<close> those of them with
  \<open>is_significant\<close>, \<open>false_count\<close> the rest, \<open>total\<close> their sum, \<open>percentage\<close> equal to
  \<open>true_count/total*100\<close> when \<open>total > 0\<close> and \<open>0\<close> when \<open>total = 0\<close>. On the empty
  record set all four numbers are \<open>0\<close>.
\<close>

theorem analyze_by_threshold_counts:
  "(\<exists>st. analyze_by_threshold (encode_records rs) t = Inr st
      \<and> threshold st = t
      \<and> total st = length (filter (\<lambda>r. int (context_count r) < t) rs)
      \<and> true_count st =
          length (filter (\<lambda>r. int (context_count r) < t \<and> is_significant r) rs)
      \<and> false_count st =
          length (filter (\<lambda>r. int (context_count r) < t \<and> \<not> is_significant r) rs)
      \<and> total st = true_count st + false_count st
      \<and> percentage st =
          (if total st > 0 then of_nat (true_count st) / of_nat (total st) * 100 else 0))
   \<and> analyze_by_threshold (encode_records []) t =
       Inr \<lparr>threshold = t, total = 0, true_count = 0, false_count = 0, percentage = 0\<rparr>"
proof -
  have sig: "filter is_significant (below t rs) =
             filter (\<lambda>r. int (context_count r) < t \<and> is_significant r) rs"
    by (simp add: below_def conj_commute)
  have nsig: "filter (\<lambda>r. \<not> is_significant r) (below t rs) =
              filter (\<lambda>r. int (context_count r) < t \<and> \<not> is_significant r) rs"
    by (simp add: below_def conj_commute)
  have split: "length (below t rs) =
      length (filter is_significant (below t rs)) +
      length (filter (\<lambda>r. \<not> is_significant r) (below t rs))"
    by (simp add: length_split_significant)
  have tot: "total (stat_of rs t) = length (filter (\<lambda>r. int (context_count r) < t) rs)"
    by (simp add: stat_of_def below_def)
  have tc: "true_count (stat_of rs t) =
      length (filter (\<lambda>r. int (context_count r) < t \<and> is_significant r) rs)"
    by (simp add: stat_of_def sig)
  have fc: "false_count (stat_of rs t) =
      length (filter (\<lambda>r. int (context_count r) < t \<and> \<not> is_significant r) rs)"
    by (simp add: stat_of_def nsig)
  have sum: "total (stat_of rs t) = true_count (stat_of rs t) + false_count (stat_of rs t)"
    using split by (simp add: stat_of_def)
  have pct: "percentage (stat_of rs t) =
      (if total (stat_of rs t) > 0
       then of_nat (true_count (stat_of rs t)) / of_nat (total (stat_of rs t)) * 100 else 0)"
    by (simp add: stat_of_def)
  have thr: "threshold (stat_of rs t) = t"
    by (simp add: stat_of_def)
  have empty: "analyze_by_threshold (encode_records []) t =
       Inr \<lparr>threshold = t, total = 0, true_count = 0, false_count = 0, percentage = 0\<rparr>"
    by (simp add: analyze_by_threshold_encode stat_of_def below_def)
  show ?thesis
    using analyze_by_threshold_encode [of rs t] tot tc fc sum pct thr empty by blast
qed

text \<open>The scenario's first threshold: one record of two is admitted, and it is significant.\<close>

theorem analyze_by_threshold_counts_witness:
  "analyze_by_threshold (encode_records scenario_records) 2 =
     Inr \<lparr>threshold = 2, total = 1, true_count = 1, false_count = 0, percentage = 100\<rparr>"
proof -
  from analyze_by_threshold_counts [of scenario_records 2]
  obtain st where st: "analyze_by_threshold (encode_records scenario_records) 2 = Inr st"
    and "threshold st = 2"
    and "total st = length (filter (\<lambda>r. int (context_count r) < 2) scenario_records)"
    and "true_count st =
          length (filter (\<lambda>r. int (context_count r) < 2 \<and> is_significant r) scenario_records)"
    and "false_count st =
          length (filter (\<lambda>r. int (context_count r) < 2 \<and> \<not> is_significant r) scenario_records)"
    and "percentage st =
          (if total st > 0 then of_nat (true_count st) / of_nat (total st) * 100 else 0)"
    by blast
  then have "st = \<lparr>threshold = 2, total = 1, true_count = 1, false_count = 0, percentage = 100\<rparr>"
    by (simp add: scenario_records_def)
  with st show ?thesis by simp
qed

subsection \<open>The sweep on well-formed input\<close>

lemma loop_encode_unfold:
  "analyze_all_thresholds_loop (encode_records rs) t p acc =
     (if length (below t rs) = p \<and> length (below t rs) > 0 then Some (Inr acc)
      else analyze_all_thresholds_loop (encode_records rs) (t + 1) (length (below t rs))
             (acc @ [stat_of rs t]))"
  by (subst analyze_all_thresholds_loop.simps)
     (simp add: analyze_by_threshold_encode stat_of_def)

lemma loop_stop:
  "length (below t rs) = p \<Longrightarrow> length (below t rs) > 0 \<Longrightarrow>
   analyze_all_thresholds_loop (encode_records rs) t p acc = Some (Inr acc)"
  by (subst loop_encode_unfold) simp

lemma loop_step:
  "\<not> (length (below t rs) = p \<and> length (below t rs) > 0) \<Longrightarrow>
   analyze_all_thresholds_loop (encode_records rs) t p acc =
     analyze_all_thresholds_loop (encode_records rs) (t + 1) (length (below t rs))
       (acc @ [stat_of rs t])"
  by (subst loop_encode_unfold) (simp only: if_False)

lemma map_upt_shift: "map g [0..<Suc n] = g 0 # map (\<lambda>j. g (Suc j)) [0..<n]"
  by (induction n) simp_all

text \<open>
  A run of the loop from threshold \<open>t\<close> that does not stop at \<open>t\<close> and meets its first
  plateau at \<open>t + 1 + k\<close> appends the statistics of \<open>t, \<dots>, t + k\<close> and returns.
\<close>

lemma loop_run:
  assumes "\<not> (length (below t rs) = p \<and> length (below t rs) > 0)"
    and "\<forall>j<k. \<not> plateau rs (t + 1 + int j)"
    and "plateau rs (t + 1 + int k)"
  shows "analyze_all_thresholds_loop (encode_records rs) t p acc =
           Some (Inr (acc @ map (\<lambda>j. stat_of rs (t + int j)) [0..<Suc k]))"
  using assms
proof (induction k arbitrary: t p acc)
  case 0
  have a: "analyze_all_thresholds_loop (encode_records rs) t p acc =
        analyze_all_thresholds_loop (encode_records rs) (t + 1) (length (below t rs))
          (acc @ [stat_of rs t])"
    using "0.prems"(1) by (rule loop_step)
  have b: "analyze_all_thresholds_loop (encode_records rs) (t + 1) (length (below t rs))
          (acc @ [stat_of rs t]) = Some (Inr (acc @ [stat_of rs t]))"
    using "0.prems"(3) by (intro loop_stop) (auto simp: plateau_def)
  show ?case unfolding a b by simp
next
  case (Suc k)
  have np: "\<not> plateau rs (t + 1)"
    using Suc.prems(2)[rule_format, of 0] by simp
  have a: "analyze_all_thresholds_loop (encode_records rs) t p acc =
        analyze_all_thresholds_loop (encode_records rs) (t + 1) (length (below t rs))
          (acc @ [stat_of rs t])"
    using Suc.prems(1) by (rule loop_step)
  have b: "analyze_all_thresholds_loop (encode_records rs) (t + 1) (length (below t rs))
          (acc @ [stat_of rs t]) =
        Some (Inr ((acc @ [stat_of rs t]) @ map (\<lambda>j. stat_of rs (t + 1 + int j)) [0..<Suc k]))"
  proof (rule Suc.IH)
    show "\<not> (length (below (t + 1) rs) = length (below t rs) \<and> 0 < length (below (t + 1) rs))"
      using np by (simp add: plateau_def)
    show "\<forall>j<k. \<not> plateau rs (t + 1 + 1 + int j)"
    proof (intro allI impI)
      fix j assume "j < k"
      then have "Suc j < Suc k" by simp
      with Suc.prems(2) have "\<not> plateau rs (t + 1 + int (Suc j))" by blast
      then show "\<not> plateau rs (t + 1 + 1 + int j)" by (simp add: ac_simps)
    qed
    show "plateau rs (t + 1 + 1 + int k)"
      using Suc.prems(3) by (simp add: ac_simps)
  qed
  have m: "map (\<lambda>j. stat_of rs (t + int j)) [0..<Suc (Suc k)] =
           stat_of rs t # map (\<lambda>j. stat_of rs (t + 1 + int j)) [0..<Suc k]"
    by (subst map_upt_shift) (simp add: ac_simps)
  show ?case unfolding a b m by simp
qed

text \<open>A large enough threshold admits every record, so a non-empty set has a plateau.\<close>

lemma below_all: "\<exists>M. \<forall>t\<ge>M. below t rs = rs"
proof (induction rs)
  case Nil
  show ?case by (simp add: below_def)
next
  case (Cons r rs)
  then obtain M where M: "\<forall>t\<ge>M. below t rs = rs" by blast
  have "\<forall>t \<ge> max M (int (context_count r) + 1). below t (r # rs) = r # rs"
    using M by (simp add: below_def)
  then show ?case by blast
qed

lemma plateau_eventually:
  assumes "rs \<noteq> []"
  shows "\<exists>n. plateau rs (s + 1 + int n)"
proof -
  obtain M where M: "\<forall>t\<ge>M. below t rs = rs" using below_all by blast
  define n where "n = nat (M - s)"
  have "s + 1 + int n \<ge> M" "s + 1 + int n - 1 \<ge> M" by (simp_all add: n_def)
  with M have "below (s + 1 + int n) rs = rs" "below (s + 1 + int n - 1) rs = rs" by blast+
  with assms have "plateau rs (s + 1 + int n)" by (simp add: plateau_def)
  then show ?thesis ..
qed

lemma first_plateau:
  assumes "rs \<noteq> []"
  shows "\<exists>k. plateau rs (s + 1 + int k) \<and> (\<forall>j<k. \<not> plateau rs (s + 1 + int j))"
proof -
  define k where "k = (LEAST n. plateau rs (s + 1 + int n))"
  from plateau_eventually[OF assms] obtain n where "plateau rs (s + 1 + int n)" ..
  then have "plateau rs (s + 1 + int k)" unfolding k_def by (rule LeastI)
  moreover have "\<forall>j<k. \<not> plateau rs (s + 1 + int j)"
    unfolding k_def using not_less_Least by blast
  ultimately show ?thesis by blast
qed

lemma sweep_result:
  assumes "rs \<noteq> []"
  shows "\<exists>k. analyze_all_thresholds (encode_records rs) s =
               Some (Inr (map (\<lambda>j. stat_of rs (s + int j)) [0..<Suc k]))
           \<and> plateau rs (s + 1 + int k) \<and> (\<forall>j<k. \<not> plateau rs (s + 1 + int j))"
proof -
  from first_plateau[OF assms] obtain k where
    k: "plateau rs (s + 1 + int k)" "\<forall>j<k. \<not> plateau rs (s + 1 + int j)" by blast
  have "\<not> (length (below s rs) = 0 \<and> length (below s rs) > 0)" by simp
  from loop_run[OF this k(2) k(1), of "[]"]
  have "analyze_all_thresholds (encode_records rs) s =
               Some (Inr (map (\<lambda>j. stat_of rs (s + int j)) [0..<Suc k]))"
    by (simp add: analyze_all_thresholds_def)
  with k show ?thesis by blast
qed

text \<open>On a non-empty record set the sweep returns a non-empty list and raises nothing.\<close>

lemma sweep_terminates:
  assumes "rs \<noteq> []"
  shows "\<exists>ys. analyze_all_thresholds (encode_records rs) s = Some (Inr ys) \<and> ys \<noteq> []"
proof -
  from sweep_result[OF assms] obtain k where
    "analyze_all_thresholds (encode_records rs) s =
       Some (Inr (map (\<lambda>j. stat_of rs (s + int j)) [0..<Suc k]))" by blast
  moreover have "map (\<lambda>j. stat_of rs (s + int j)) [0..<Suc k] \<noteq> []" by simp
  ultimately show ?thesis by blast
qed

lemma not_stabilizing_run:
  assumes "\<forall>j<k. \<not> plateau rs (s + 1 + int j)"
  shows "\<not> stabilizing_entry_last (map (\<lambda>j. stat_of rs (s + int j)) [0..<Suc k])"
proof (cases k)
  case 0
  then show ?thesis by (simp add: stabilizing_entry_last_def)
next
  case (Suc m)
  with assms have np: "\<not> plateau rs (s + 1 + int m)" by simp
  have l: "last (map (\<lambda>j. stat_of rs (s + int j)) [0..<Suc k]) = stat_of rs (s + 1 + int m)"
    using Suc by (simp add: ac_simps)
  have b: "last (butlast (map (\<lambda>j. stat_of rs (s + int j)) [0..<Suc k])) = stat_of rs (s + int m)"
    using Suc by (simp add: butlast_append)
  show ?thesis
    using np unfolding stabilizing_entry_last_def l b plateau_def
    by (simp add: stat_of_def)
qed

lemma scenario_run:
  "analyze_all_thresholds (encode_records scenario_records) 2 =
     Some (Inr [\<lparr>threshold = 2, total = 1, true_count = 1, false_count = 0, percentage = 100\<rparr>])"
proof -
  have b2: "below 2 scenario_records =
      [\<lparr>rec_file_name = ''A'', context_count = 1, is_significant = True\<rparr>]"
    by (simp add: below_def scenario_records_def)
  have b3: "below 3 scenario_records =
      [\<lparr>rec_file_name = ''A'', context_count = 1, is_significant = True\<rparr>]"
    by (simp add: below_def scenario_records_def)
  have s2: "stat_of scenario_records 2 =
      \<lparr>threshold = 2, total = 1, true_count = 1, false_count = 0, percentage = 100\<rparr>"
    by (simp add: stat_of_def b2)
  have "analyze_all_thresholds_loop (encode_records scenario_records) 2 0 [] =
        analyze_all_thresholds_loop (encode_records scenario_records) (2 + 1)
          (length (below 2 scenario_records)) ([] @ [stat_of scenario_records 2])"
    by (rule loop_step) simp
  also have "\<dots> = Some (Inr ([] @ [stat_of scenario_records 2]))"
    by (rule loop_stop) (simp_all add: b2 b3)
  finally show ?thesis by (simp add: analyze_all_thresholds_def s2)
qed

text \<open>
  Claim C1, as the code has it. For every non-empty record set the sweep returns at the
  first threshold above \<open>start_threshold\<close> whose total equals the total of the threshold
  before it and is positive, and the statistic of that threshold is not appended: the
  result is the statistics of \<open>start_threshold, \<dots>\<close> up to the threshold just before it,
  in order, so the last entry of the result never repeats a positive total.
\<close>

theorem sweep_stops_before_stabilizing_entry:
  assumes "rs \<noteq> []"
  shows "\<exists>k. analyze_all_thresholds (encode_records rs) s =
               Some (Inr (map (\<lambda>j. stat_of rs (s + int j)) [0..<Suc k]))
           \<and> plateau rs (s + 1 + int k)
           \<and> (\<forall>j<k. \<not> plateau rs (s + 1 + int j))
           \<and> \<not> stabilizing_entry_last (map (\<lambda>j. stat_of rs (s + int j)) [0..<Suc k])"
proof -
  from sweep_result[OF assms] obtain k where
    k: "analyze_all_thresholds (encode_records rs) s =
          Some (Inr (map (\<lambda>j. stat_of rs (s + int j)) [0..<Suc k]))"
       "plateau rs (s + 1 + int k)" "\<forall>j<k. \<not> plateau rs (s + 1 + int j)" by blast
  from not_stabilizing_run[OF k(3)] k show ?thesis by blast
qed

theorem sweep_stops_before_stabilizing_entry_witness:
  "scenario_records \<noteq> []
   \<and> (\<exists>k. analyze_all_thresholds (encode_records scenario_records) 2 =
             Some (Inr (map (\<lambda>j. stat_of scenario_records (2 + int j)) [0..<Suc k]))
         \<and> plateau scenario_records (2 + 1 + int k)
         \<and> (\<forall>j<k. \<not> plateau scenario_records (2 + 1 + int j))
         \<and> \<not> stabilizing_entry_last
               (map (\<lambda>j. stat_of scenario_records (2 + int j)) [0..<Suc k]))"
proof -
  have ne: "scenario_records \<noteq> []" by (simp add: scenario_records_def)
  from sweep_stops_before_stabilizing_entry [OF ne, of 2] ne show ?thesis by blast
qed

text \<open>
  The scenario refutes the claim as it is worded: the sweep from threshold 2 returns the
  single statistic of threshold 2; the statistic of threshold 3, which repeats the total
  1, is not in the result.
\<close>

theorem stabilizing_entry_counterexample:
  "analyze_all_thresholds (encode_records scenario_records) 2 =
     Some (Inr [\<lparr>threshold = 2, total = 1, true_count = 1, false_count = 0, percentage = 100\<rparr>])
   \<and> analyze_by_threshold (encode_records scenario_records) 3 =
     Inr \<lparr>threshold = 3, total = 1, true_count = 1, false_count = 0, percentage = 100\<rparr>
   \<and> \<not> stabilizing_entry_last
         [\<lparr>threshold = 2, total = 1, true_count = 1, false_count = 0, percentage = 100\<rparr>]"
proof -
  have "analyze_by_threshold (encode_records scenario_records) 3 =
     Inr \<lparr>threshold = 3, total = 1, true_count = 1, false_count = 0, percentage = 100\<rparr>"
    by (simp add: analyze_by_threshold_encode stat_of_def below_def scenario_records_def)
  moreover have "\<not> stabilizing_entry_last
         [\<lparr>threshold = 2, total = 1, true_count = 1, false_count = 0, percentage = 100\<rparr>]"
    by (simp add: stabilizing_entry_last_def)
  ultimately show ?thesis using scenario_run by simp
qed

text \<open>
  Claim C2 at the scenario. The sweep returns, but its final entry has total 1 while the
  record set has 2 records: record B, with 3 contexts, is never admitted, because the
  totals of thresholds 2 and 3 already agree.
\<close>

theorem sweep_final_total_scenario:
  "analyze_all_thresholds (encode_records scenario_records) 2 =
     Some (Inr [\<lparr>threshold = 2, total = 1, true_count = 1, false_count = 0, percentage = 100\<rparr>])
   \<and> total (last [\<lparr>threshold = 2, total = 1, true_count = 1, false_count = 0,
                    percentage = 100\<rparr>]) = 1
   \<and> length scenario_records = 2"
  using scenario_run by (simp add: scenario_records_def)

subsection \<open>The sweep without a positive total\<close>

text \<open>A run of the loop that returns has met a threshold whose total is not \<open>0\<close>.\<close>

lemma loop_diverges:
  assumes ret: "analyze_all_thresholds_loop data t p acc = Some y"
  shows "\<exists>t'\<ge>t. \<not> (\<exists>st. analyze_by_threshold data t' = Inr st \<and> total st = 0)"
proof (rule analyze_all_thresholds_loop.raw_induct
    [where P = "\<lambda>d t p acc y.
        \<exists>t'\<ge>t. \<not> (\<exists>st. analyze_by_threshold d t' = Inr st \<and> total st = 0)",
     OF _ ret])
  fix f :: "json \<Rightarrow> int \<Rightarrow> nat \<Rightarrow> threshold_stat list \<Rightarrow> (py_error + threshold_stat list) option"
  fix d t p acc y
  assume IH: "\<And>d t p acc y. f d t p acc = Some y \<Longrightarrow>
      \<exists>t'\<ge>t. \<not> (\<exists>st. analyze_by_threshold d t' = Inr st \<and> total st = 0)"
  assume body: "(case analyze_by_threshold d t of Inl e \<Rightarrow> Some (Inl e)
      | Inr stats \<Rightarrow>
          if total stats = p \<and> 0 < total stats then Some (Inr acc)
          else f d (t + 1) (total stats) (acc @ [stats])) = Some y"
  show "\<exists>t'\<ge>t. \<not> (\<exists>st. analyze_by_threshold d t' = Inr st \<and> total st = 0)"
  proof (cases "\<exists>st. analyze_by_threshold d t = Inr st \<and> total st = 0")
    case False
    then have "t \<le> t \<and> \<not> (\<exists>st. analyze_by_threshold d t = Inr st \<and> total st = 0)" by simp
    then show ?thesis by (rule exI)
  next
    case True
    then obtain st where st: "analyze_by_threshold d t = Inr st" "total st = 0" by blast
    with body have "f d (t + 1) (total st) (acc @ [st]) = Some y" by simp
    from IH[OF this] obtain t' where t': "t + 1 \<le> t'"
      "\<not> (\<exists>st. analyze_by_threshold d t' = Inr st \<and> total st = 0)" by blast
    then have "t \<le> t' \<and> \<not> (\<exists>st. analyze_by_threshold d t' = Inr st \<and> total st = 0)"
      by simp
    then show ?thesis by (rule exI)
  qed
qed

lemma analyze_by_threshold_empty:
  "analyze_by_threshold (encode_records []) t =
     Inr \<lparr>threshold = t, total = 0, true_count = 0, false_count = 0, percentage = 0\<rparr>"
  by (simp add: analyze_by_threshold_encode stat_of_def below_def)

lemma analyze_by_threshold_no_key:
  "\<not> has_significance_results data \<Longrightarrow>
   analyze_by_threshold data t =
     Inr \<lparr>threshold = t, total = 0, true_count = 0, false_count = 0, percentage = 0\<rparr>"
  by (simp add: analyze_by_threshold_def count_results_def)

text \<open>
  Claim C3, as the code has it. The sweep has no bound on the threshold and no error for
  a sweep that does not stabilize: when every threshold from \<open>start_threshold\<close> on
  yields total \<open>0\<close>, \<open>analyze_all_thresholds\<close> never returns and raises nothing.
\<close>

theorem sweep_without_positive_total_never_returns:
  assumes "\<forall>t\<ge>s. \<exists>st. analyze_by_threshold data t = Inr st \<and> total st = 0"
  shows "analyze_all_thresholds data s = None"
proof (cases "analyze_all_thresholds data s")
  case None
  then show ?thesis .
next
  case (Some y)
  then have "analyze_all_thresholds_loop data s 0 [] = Some y"
    by (simp add: analyze_all_thresholds_def)
  from loop_diverges[OF this] assms show ?thesis by blast
qed

text \<open>An input without the key \<open>significance_results\<close>: every total is 0, the sweep hangs.\<close>

theorem sweep_without_positive_total_never_returns_witness:
  "analyze_all_thresholds (JDict []) 2 = None"
proof -
  have h: "\<forall>t\<ge>2. \<exists>st. analyze_by_threshold (JDict []) t = Inr st \<and> total st = 0"
    by (simp add: analyze_by_threshold_no_key)
  from sweep_without_positive_total_never_returns [OF h] show ?thesis .
qed

text \<open>The empty record set: the sweep from the default threshold 2 does not return.\<close>

theorem empty_sweep_counterexample:
  "analyze_all_thresholds (encode_records []) 2 = None"
proof (cases "analyze_all_thresholds (encode_records []) 2")
  case None
  then show ?thesis .
next
  case (Some y)
  then have "analyze_all_thresholds_loop (encode_records []) 2 0 [] = Some y"
    by (simp add: analyze_all_thresholds_def)
  from loop_diverges[OF this] show ?thesis
    by (simp add: analyze_by_threshold_empty)
qed

subsection \<open>Malformed input\<close>

lemma count_loop_prefix:
  "count_loop t (map encode_record rs @ ys) (tc, fc) =
     count_loop t ys (tc + length (filter is_significant (below t rs)),
                      fc + length (filter (\<lambda>r. \<not> is_significant r) (below t rs)))"
  by (induction rs arbitrary: tc fc) (simp_all add: subscript_encode_record below_def)

text \<open>
  Claim C4, as the code has it. There is no \<open>MalformedInputError\<close>. An input that is not
  a dict, or is a dict without the key \<open>significance_results\<close>, passes silently: the
  counts are \<open>(0, 0, 0)\<close> for every threshold. A record without \<open>context_count\<close>, once
  the loop reaches it, raises \<open>KeyError\<close>. A record with an integer \<open>context_count\<close> and
  without \<open>is_significant\<close> raises \<open>KeyError\<close> when its count is below the threshold,
  and is skipped without any error otherwise.
\<close>

theorem malformed_input_behaviour:
  "(\<not> has_significance_results data \<longrightarrow> count_results data t = Inr (0, 0, 0))
   \<and> (map_of kvs ''context_count'' = None \<longrightarrow>
        count_results (malformed_at rs kvs rest) t = Inl (KeyError ''context_count''))
   \<and> (map_of kvs ''context_count'' = Some (JInt c) \<and> map_of kvs ''is_significant'' = None \<longrightarrow>
        count_results (malformed_at rs kvs rest) t =
          (if c < t then Inl (KeyError ''is_significant'')
           else count_results
                  (JDict [(''significance_results'', JList (map encode_record rs @ rest))]) t))"
  by (simp add: count_results_def malformed_at_def count_loop_prefix)

theorem malformed_input_behaviour_witness:
  "count_results (JList []) 2 = Inr (0, 0, 0)
   \<and> count_results (malformed_at scenario_records [(''file_name'', JStr ''C'')] []) 2 =
       Inl (KeyError ''context_count'')
   \<and> count_results
        (malformed_at scenario_records [(''file_name'', JStr ''C''), (''context_count'', JInt 1)] []) 2 =
       Inl (KeyError ''is_significant'')
   \<and> count_results
        (malformed_at scenario_records [(''file_name'', JStr ''C''), (''context_count'', JInt 5)] []) 2 =
       Inr (1, 1, 0)"
proof -
  have a: "count_results (JList []) 2 = Inr (0, 0, 0)"
    using malformed_input_behaviour [of "JList []" 2 "[]" "[]" "[]" 0] by simp
  have b: "count_results (malformed_at scenario_records [(''file_name'', JStr ''C'')] []) 2 =
       Inl (KeyError ''context_count'')"
    using malformed_input_behaviour
      [of "JList []" 2 "[(''file_name'', JStr ''C'')]" scenario_records "[]" 0] by simp
  have c: "count_results
        (malformed_at scenario_records [(''file_name'', JStr ''C''), (''context_count'', JInt 1)] []) 2 =
       Inl (KeyError ''is_significant'')"
    using malformed_input_behaviour
      [of "JList []" 2 "[(''file_name'', JStr ''C''), (''context_count'', JInt 1)]"
          scenario_records "[]" 1] by simp
  have e: "count_results
        (malformed_at scenario_records [(''file_name'', JStr ''C''), (''context_count'', JInt 5)] []) 2 =
       count_results (encode_records scenario_records) 2"
    using malformed_input_behaviour
      [of "JList []" 2 "[(''file_name'', JStr ''C''), (''context_count'', JInt 5)]"
          scenario_records "[]" 5]
    by (simp add: encode_records_def)
  have r: "count_results (encode_records scenario_records) 2 = Inr (1, 1, 0)"
    by (simp add: count_results_encode below_def scenario_records_def)
  have d: "count_results
        (malformed_at scenario_records [(''file_name'', JStr ''C''), (''context_count'', JInt 5)] []) 2 =
       Inr (1, 1, 0)"
    using e r by simp
  from a b c d show ?thesis by simp
qed

text \<open>
  An input without the key \<open>significance_results\<close> refutes the claim as it is worded:
  nothing is raised, the counts and the statistic are those of an empty record set.
\<close>

theorem missing_key_counterexample:
  "count_results (JDict []) 2 = Inr (0, 0, 0)
   \<and> analyze_by_threshold (JDict []) 2 =
       Inr \<lparr>threshold = 2, total = 0, true_count = 0, false_count = 0, percentage = 0\<rparr>"
  by (simp add: count_results_def analyze_by_threshold_def)

subsection \<open>Summary statistics\<close>

lemma foldl_plus: "foldl (+) a xs = a + sum_list xs" for a :: rat
  by (induction xs arbitrary: a) (simp_all add: add.assoc)

lemma py_sum_eq: "py_sum xs = sum_list xs"
  by (simp add: py_sum_def foldl_plus)

text \<open>
  Claim C9. \<open>calculate_statistics\<close> returns \<open>None\<close> exactly when the sequence is empty,
  and otherwise the arithmetic mean of the \<open>percentage\<close> fields together with their
  population variance: the sum of the squared deviations from that mean, divided by the
  number \<open>n\<close> of entries.
\<close>

theorem calculate_statistics_mean_variance:
  "calculate_statistics results =
     (if results = [] then None
      else Some \<lparr>average_percentage = mean (map percentage results),
                 variance = population_variance (map percentage results)\<rparr>)"
  by (simp add: calculate_statistics_def Let_def py_sum_eq mean_def population_variance_def)

text \<open>
  Percentages 50, 50, 100: mean \<open>200/3\<close>, variance \<open>5000/9\<close> (division by 3; division
  by 2 would give \<open>2500/3\<close>).
\<close>

theorem calculate_statistics_mean_variance_witness:
  "calculate_statistics
     [\<lparr>threshold = 2, total = 2, true_count = 1, false_count = 1, percentage = 50\<rparr>,
      \<lparr>threshold = 3, total = 4, true_count = 2, false_count = 2, percentage = 50\<rparr>,
      \<lparr>threshold = 4, total = 5, true_count = 5, false_count = 0, percentage = 100\<rparr>]
   = Some \<lparr>average_percentage = 200 / 3, variance = 5000 / 9\<rparr>
   \<and> calculate_statistics [] = None"
  using calculate_statistics_mean_variance
     [of "[\<lparr>threshold = 2, total = 2, true_count = 1, false_count = 1, percentage = 50\<rparr>,
      \<lparr>threshold = 3, total = 4, true_count = 2, false_count = 2, percentage = 50\<rparr>,
      \<lparr>threshold = 4, total = 5, true_count = 5, false_count = 0, percentage = 100\<rparr>]"]
    calculate_statistics_mean_variance [of "[]"]
  by (simp add: mean_def population_variance_def power2_eq_square)

section \<open>Properties of the extractor\<close>

subsection \<open>Context windows\<close>




lemma add_match_match_of:
  "add_match self content start endp term f mt =
     self\<lparr>matches := matches self @ [match_of (context_length self) content start endp term f mt]\<rparr>"
  by (simp add: add_match_def match_of_def Let_def)




subsection \<open>Loose matching\<close>









subsection \<open>Exact matching\<close>

lemma find_from_Some:
  "find_from sub xs p = Some q \<Longrightarrow>
     p \<le> q \<and> q \<le> p + length xs \<and> prefix sub (drop (q - p) xs) \<and>
     (\<forall>j. j < q - p \<longrightarrow> \<not> prefix sub (drop j xs))"
proof (induction xs arbitrary: p)
  case Nil
  then show ?case by (simp split: if_splits)
next
  case (Cons c cs)
  show ?case
  proof (cases "prefix sub (c # cs)")
    case True
    with Cons.prems show ?thesis by simp
  next
    case False
    with Cons.prems have r: "find_from sub cs (Suc p) = Some q" by simp
    from Cons.IH[OF r] have ih: "Suc p \<le> q" "q \<le> Suc p + length cs"
      "prefix sub (drop (q - Suc p) cs)" "\<forall>j. j < q - Suc p \<longrightarrow> \<not> prefix sub (drop j cs)"
      by blast+
    have d: "q - p = Suc (q - Suc p)" using ih(1) by simp
    have "\<forall>j. j < q - p \<longrightarrow> \<not> prefix sub (drop j (c # cs))"
    proof (intro allI impI)
      fix j assume j: "j < q - p"
      show "\<not> prefix sub (drop j (c # cs))"
      proof (cases j)
        case 0
        with False show ?thesis by simp
      next
        case (Suc j')
        with j d have "j' < q - Suc p" by simp
        with ih(4) Suc show ?thesis by simp
      qed
    qed
    with ih d show ?thesis by simp
  qed
qed

lemma find_from_None:
  "find_from sub xs p = None \<Longrightarrow> j \<le> length xs \<Longrightarrow> \<not> prefix sub (drop j xs)"
proof (induction xs arbitrary: p j)
  case Nil
  then show ?case by (simp split: if_splits)
next
  case (Cons c cs)
  from Cons.prems(1) have np: "\<not> prefix sub (c # cs)" and r: "find_from sub cs (Suc p) = None"
    by (simp_all split: if_splits)
  show ?case
  proof (cases j)
    case 0
    with np show ?thesis by simp
  next
    case (Suc j')
    with Cons.prems(2) have "j' \<le> length cs" by simp
    from Cons.IH[OF r this] Suc show ?thesis by simp
  qed
qed

lemma str_find_Some:
  assumes "str_find s sub start = Some q"
  shows "start \<le> q" "occurs_at s sub q" "\<And>r. start \<le> r \<Longrightarrow> r < q \<Longrightarrow> \<not> occurs_at s sub r"
proof -
  from assms have le: "start \<le> length s" and f: "find_from sub (drop start s) start = Some q"
    by (simp_all add: str_find_def split: if_splits)
  from find_from_Some[OF f] have a: "start \<le> q" "q \<le> start + length (drop start s)"
    "prefix sub (drop (q - start) (drop start s))"
    "\<forall>j. j < q - start \<longrightarrow> \<not> prefix sub (drop j (drop start s))" by blast+
  show "start \<le> q" by (rule a(1))
  show "occurs_at s sub q" using a le by (simp add: occurs_at_def)
  fix r assume r: "start \<le> r" "r < q"
  then have "r - start < q - start" by simp
  with a(4) have "\<not> prefix sub (drop (r - start) (drop start s))" by blast
  with r show "\<not> occurs_at s sub r" by (simp add: occurs_at_def)
qed

lemma str_find_None:
  assumes "str_find s sub start = None" "start \<le> r"
  shows "\<not> occurs_at s sub r"
proof
  assume o: "occurs_at s sub r"
  then have rl: "r \<le> length s" by (simp add: occurs_at_def)
  with assms have f: "find_from sub (drop start s) start = None"
    by (simp add: str_find_def split: if_splits)
  have "r - start \<le> length (drop start s)" using rl assms(2) by simp
  from find_from_None[OF f this] o assms(2) show False by (simp add: occurs_at_def)
qed

lemma exact_loop_None_step:
  "str_find sc st start = None \<Longrightarrow> exact_loop self c sc st t f start = Some self"
  by (subst exact_loop.simps) simp

lemma exact_loop_Some_step:
  "str_find sc st start = Some pos \<Longrightarrow>
   exact_loop self c sc st t f start =
     exact_loop (add_match self c (int pos) (int pos + int (length t)) t f ''exact_match'')
       c sc st t f (pos + length t)"
  by (subst exact_loop.simps) simp

text \<open>For a non-empty term the loop returns, and its finds are the repeated search.\<close>

lemma exact_loop_run:
  assumes "t \<noteq> []"
  shows "\<exists>ps. greedy_from sc st (length t) start ps \<and>
           exact_loop self c sc st t f start =
             Some (self\<lparr>matches := matches self @
                map (\<lambda>p. match_of (context_length self) c (int p) (int p + int (length t)) t f
                            ''exact_match'') ps\<rparr>)"
proof (induction "Suc (length sc) - start" arbitrary: start self rule: less_induct)
  case less
  show ?case
  proof (cases "str_find sc st start")
    case None
    then have "greedy_from sc st (length t) start []" by simp
    moreover have "exact_loop self c sc st t f start = Some (self\<lparr>matches := matches self @ map (\<lambda>p. match_of (context_length self) c (int p) (int p + int (length t)) t f ''exact_match'') []\<rparr>)"
      using None by (simp add: exact_loop_None_step)
    ultimately show ?thesis by blast
  next
    case (Some pos)
    from str_find_Some[OF Some] have sp: "start \<le> pos" "pos \<le> length sc"
      by (simp_all add: occurs_at_def)
    let ?self1 = "add_match self c (int pos) (int pos + int (length t)) t f ''exact_match''"
    have "Suc (length sc) - (pos + length t) < Suc (length sc) - start"
      using sp assms by (cases t) simp_all
    from less[OF this, of ?self1] obtain ps where
      g: "greedy_from sc st (length t) (pos + length t) ps" and
      e: "exact_loop ?self1 c sc st t f (pos + length t) =
            Some (?self1\<lparr>matches := matches ?self1 @
               map (\<lambda>p. match_of (context_length ?self1) c (int p) (int p + int (length t)) t f
                            ''exact_match'') ps\<rparr>)" by blast
    have "greedy_from sc st (length t) start (pos # ps)" using Some g by simp
    moreover have "exact_loop self c sc st t f start =
             Some (self\<lparr>matches := matches self @
                map (\<lambda>p. match_of (context_length self) c (int p) (int p + int (length t)) t f
                            ''exact_match'') (pos # ps)\<rparr>)"
      unfolding exact_loop_Some_step[OF Some] e
      by (simp add: add_match_match_of)
    ultimately show ?thesis by blast
  qed
qed

lemma greedy_occurs:
  "greedy_from s sub step start ps \<Longrightarrow> p \<in> set ps \<Longrightarrow> start \<le> p \<and> occurs_at s sub p"
proof (induction ps arbitrary: start)
  case Nil
  then show ?case by simp
next
  case (Cons q qs)
  from Cons.prems(1) have f: "str_find s sub start = Some q"
    and g: "greedy_from s sub step (q + step) qs" by simp_all
  show ?case
  proof (cases "p = q")
    case True
    with str_find_Some(1,2)[OF f] show ?thesis by simp
  next
    case False
    with Cons.prems(2) have "p \<in> set qs" by simp
    from Cons.IH[OF g this] str_find_Some(1)[OF f] show ?thesis by simp
  qed
qed

lemma greedy_spaced:
  "greedy_from s sub step start ps \<Longrightarrow> Suc i < length ps \<Longrightarrow> ps ! i + step \<le> ps ! Suc i"
proof (induction ps arbitrary: start i)
  case Nil
  then show ?case by simp
next
  case (Cons q qs)
  from Cons.prems(1) have g: "greedy_from s sub step (q + step) qs" by simp
  show ?case
  proof (cases i)
    case 0
    with Cons.prems(2) have "qs ! 0 \<in> set qs" by simp
    from greedy_occurs[OF g this] 0 show ?thesis by simp
  next
    case (Suc j)
    with Cons.prems(2) have "Suc j < length qs" by simp
    from Cons.IH[OF g this] Suc show ?thesis by simp
  qed
qed

lemma greedy_covers:
  "greedy_from s sub step start ps \<Longrightarrow> start \<le> q \<Longrightarrow> occurs_at s sub q \<Longrightarrow>
   \<exists>p\<in>set ps. p \<le> q \<and> q < p + step"
proof (induction ps arbitrary: start)
  case Nil
  then have "str_find s sub start = None" by simp
  from str_find_None[OF this Nil.prems(2)] Nil.prems(3) show ?case by simp
next
  case (Cons r rs)
  from Cons.prems(1) have f: "str_find s sub start = Some r"
    and g: "greedy_from s sub step (r + step) rs" by simp_all
  have rq: "r \<le> q"
  proof (rule ccontr)
    assume "\<not> r \<le> q"
    then have "q < r" by simp
    from str_find_Some(3)[OF f Cons.prems(2) this] Cons.prems(3) show False by simp
  qed
  show ?case
  proof (cases "q < r + step")
    case True
    with rq show ?thesis by auto
  next
    case False
    then have "r + step \<le> q" by simp
    from Cons.IH[OF g this Cons.prems(3)] show ?thesis by auto
  qed
qed

lemma greedy_distinct:
  "0 < step \<Longrightarrow> greedy_from s sub step start ps \<Longrightarrow> distinct ps"
proof (induction ps arbitrary: start)
  case Nil
  then show ?case by simp
next
  case (Cons q qs)
  from Cons.prems(2) have g: "greedy_from s sub step (q + step) qs" by simp
  have "q \<notin> set qs"
  proof
    assume "q \<in> set qs"
    from greedy_occurs[OF g this] Cons.prems(1) show False by simp
  qed
  with Cons.IH[OF Cons.prems(1) g] show ?case by simp
qed

lemma greedy_all_occurrences:
  assumes step: "0 < step"
    and g: "greedy_from s sub step 0 ps"
    and sep: "\<forall>p q. occurs_at s sub p \<and> occurs_at s sub q \<and> p < q \<longrightarrow> p + step \<le> q"
  shows "set ps = {p. occurs_at s sub p}" "length ps = card {p. occurs_at s sub p}"
proof -
  show eq: "set ps = {p. occurs_at s sub p}"
  proof (intro set_eqI iffI)
    fix p assume "p \<in> set ps"
    from greedy_occurs[OF g this] show "p \<in> {p. occurs_at s sub p}" by simp
  next
    fix q assume "q \<in> {p. occurs_at s sub p}"
    then have oq: "occurs_at s sub q" by simp
    from greedy_covers[OF g _ oq] obtain p where p: "p \<in> set ps" "p \<le> q" "q < p + step" by auto
    from greedy_occurs[OF g p(1)] have op: "occurs_at s sub p" by simp
    have "p = q"
    proof (rule ccontr)
      assume "p \<noteq> q"
      with p(2) have "p < q" by simp
      with sep op oq have "p + step \<le> q" by blast
      with p(3) show False by simp
    qed
    with p(1) show "q \<in> set ps" by simp
  qed
  from greedy_distinct[OF step g] have "card (set ps) = length ps" by (rule distinct_card)
  with eq show "length ps = card {p. occurs_at s sub p}" by simp
qed

text \<open>
  For a non-empty term whose searched form has the length of the term (always so when the
  search is case-sensitive): if the occurrences of the term in the searched text do not
  overlap one another and there are \<open>k\<close> of them, \<open>_exact_match\<close> returns, having appended
  exactly \<open>k\<close> entries of type \<open>exact_match\<close>, one per occurrence, at strictly increasing
  offsets with non-overlapping spans.
\<close>

lemma exact_match_nonoverlapping_occurrences:
  assumes ne: "term \<noteq> []"
    and len: "case_sensitive \<or> length (lower term) = length term"
    and sep: "\<forall>p q. occurs_at sc (if case_sensitive then term else lower term) p \<and>
                   occurs_at sc (if case_sensitive then term else lower term) q \<and> p < q
                \<longrightarrow> p + length term \<le> q"
    and k: "card {p. occurs_at sc (if case_sensitive then term else lower term) p} = k"
  shows "\<exists>ps. exact_match lower self content sc term f case_sensitive =
             Some (self\<lparr>matches := matches self @
                map (\<lambda>p. match_of (context_length self) content (int p) (int p + int (length term))
                            term f ''exact_match'') ps\<rparr>)
          \<and> length ps = k
          \<and> set ps = {p. occurs_at sc (if case_sensitive then term else lower term) p}
          \<and> (\<forall>i. Suc i < length ps \<longrightarrow> ps ! i + length term \<le> ps ! Suc i)
          \<and> greedy_from sc (if case_sensitive then term else lower term) (length term) 0 ps"
proof -
  let ?st = "if case_sensitive then term else lower term"
  from exact_loop_run[OF ne, of sc ?st 0 self content f] obtain ps where
    g: "greedy_from sc ?st (length term) 0 ps" and
    e: "exact_loop self content sc ?st term f 0 =
          Some (self\<lparr>matches := matches self @
                map (\<lambda>p. match_of (context_length self) content (int p) (int p + int (length term))
                            term f ''exact_match'') ps\<rparr>)" by blast
  have step: "0 < length term" using ne by simp
  from greedy_all_occurrences[OF step g sep] k
  have s: "set ps = {p. occurs_at sc ?st p}" "length ps = k" by simp_all
  have sp: "\<forall>i. Suc i < length ps \<longrightarrow> ps ! i + length term \<le> ps ! Suc i"
    using greedy_spaced[OF g] by blast
  have "exact_match lower self content sc term f case_sensitive =
          Some (self\<lparr>matches := matches self @
                map (\<lambda>p. match_of (context_length self) content (int p) (int p + int (length term))
                            term f ''exact_match'') ps\<rparr>)"
    using e by (simp add: exact_match_def Let_def)
  with s sp g show ?thesis by blast
qed

text \<open>With an empty term every search finds the empty string where it starts.\<close>

lemma exact_loop_empty_term:
  assumes ret: "exact_loop self c sc st t f start = Some y"
  shows "\<not> (t = [] \<and> st = [] \<and> start \<le> length sc)"
proof (rule exact_loop.raw_induct
    [where P = "\<lambda>self c sc st t f start y. \<not> (t = [] \<and> st = [] \<and> start \<le> length sc)",
     OF _ ret])
  fix g :: "content_extractor \<Rightarrow> string \<Rightarrow> string \<Rightarrow> string \<Rightarrow> string \<Rightarrow> string \<Rightarrow> nat
     \<Rightarrow> content_extractor option"
  fix self c sc st t f start y
  assume IH: "\<And>self c sc st t f start y. g self c sc st t f start = Some y \<Longrightarrow>
      \<not> (t = [] \<and> st = [] \<and> start \<le> length sc)"
  assume body: "(case str_find sc st start of None \<Rightarrow> Some self
      | Some pos \<Rightarrow>
          g (add_match self c (int pos) (int pos + int (length t)) t f ''exact_match'')
            c sc st t f (pos + length t)) = Some y"
  show "\<not> (t = [] \<and> st = [] \<and> start \<le> length sc)"
  proof
    assume a: "t = [] \<and> st = [] \<and> start \<le> length sc"
    then have "str_find sc st start = Some start"
      by (cases "drop start sc") (simp_all add: str_find_def)
    with body a have "g (add_match self c (int start) (int start + int (length t)) t f ''exact_match'')
            c sc st t f start = Some y" by simp
    from IH[OF this] a show False by simp
  qed
qed

text \<open>
  Claim C6 at the empty term. The empty string occurs in every text (in \<open>ab\<close> at the
  offsets 0, 1 and 2, with empty spans that do not overlap), but \<open>_exact_match\<close> with
  the term \<open>''\<close> returns no list of entries at all: \<open>find\<close> returns \<open>start_pos\<close>, the match
  is appended, \<open>start_pos\<close> advances by \<open>len(term) = 0\<close>, and the loop never ends.
\<close>

theorem exact_match_empty_term_never_returns:
  "card {p. occurs_at ''ab'' [] p} = 3
   \<and> exact_match lower self ''ab'' ''ab'' [] f True = None
   \<and> exact_match lower self content content [] f True = None"
proof -
  have never: "exact_match lower self c c [] f True = None" for c
  proof (cases "exact_match lower self c c [] f True")
    case None
    then show ?thesis .
  next
    case (Some y)
    then have "exact_loop self c c [] [] f 0 = Some y"
      by (simp add: exact_match_def)
    from exact_loop_empty_term[OF this] show ?thesis by simp
  qed
  have "{p. occurs_at ''ab'' [] p} = {..2}"
    by (auto simp: occurs_at_def)
  then have "card {p. occurs_at ''ab'' [] p} = 3" by simp
  with never show ?thesis by simp
qed

subsection \<open>Accumulation of matches\<close>

lemma exact_loop_relocate:
  assumes ret: "exact_loop self c sc st t f start = Some y"
  shows "\<exists>new. y = self\<lparr>matches := matches self @ new\<rparr> \<and>
           (\<forall>m\<in>set new. file_name m = f \<and> sublist (match_context m) c) \<and>
           (\<forall>ms. exact_loop (self\<lparr>matches := ms\<rparr>) c sc st t f start =
                   Some (self\<lparr>matches := ms @ new\<rparr>))"
proof (rule exact_loop.raw_induct
    [where P = "\<lambda>self c sc st t f start y.
       \<exists>new. y = self\<lparr>matches := matches self @ new\<rparr> \<and>
           (\<forall>m\<in>set new. file_name m = f \<and> sublist (match_context m) c) \<and>
           (\<forall>ms. exact_loop (self\<lparr>matches := ms\<rparr>) c sc st t f start =
                   Some (self\<lparr>matches := ms @ new\<rparr>))",
     OF _ ret])
  fix g :: "content_extractor \<Rightarrow> string \<Rightarrow> string \<Rightarrow> string \<Rightarrow> string \<Rightarrow> string \<Rightarrow> nat
     \<Rightarrow> content_extractor option"
  fix self c sc st t f start y
  assume IH: "\<And>self c sc st t f start y. g self c sc st t f start = Some y \<Longrightarrow>
       \<exists>new. y = self\<lparr>matches := matches self @ new\<rparr> \<and>
           (\<forall>m\<in>set new. file_name m = f \<and> sublist (match_context m) c) \<and>
           (\<forall>ms. exact_loop (self\<lparr>matches := ms\<rparr>) c sc st t f start =
                   Some (self\<lparr>matches := ms @ new\<rparr>))"
  assume body: "(case str_find sc st start of None \<Rightarrow> Some self
      | Some pos \<Rightarrow>
          g (add_match self c (int pos) (int pos + int (length t)) t f ''exact_match'')
            c sc st t f (pos + length t)) = Some y"
  show "\<exists>new. y = self\<lparr>matches := matches self @ new\<rparr> \<and>
           (\<forall>m\<in>set new. file_name m = f \<and> sublist (match_context m) c) \<and>
           (\<forall>ms. exact_loop (self\<lparr>matches := ms\<rparr>) c sc st t f start =
                   Some (self\<lparr>matches := ms @ new\<rparr>))"
  proof (cases "str_find sc st start")
    case None
    with body have "y = self" by simp
    then have "y = self\<lparr>matches := matches self @ []\<rparr>" by simp
    moreover have "\<forall>ms. exact_loop (self\<lparr>matches := ms\<rparr>) c sc st t f start =
                   Some (self\<lparr>matches := ms @ []\<rparr>)"
      using None by (simp add: exact_loop_None_step)
    ultimately show ?thesis by (intro exI[of _ "[]"]) simp
  next
    case (Some pos)
    let ?e = "match_of (context_length self) c (int pos) (int pos + int (length t)) t f ''exact_match''"
    let ?self1 = "add_match self c (int pos) (int pos + int (length t)) t f ''exact_match''"
    have s1: "?self1 = self\<lparr>matches := matches self @ [?e]\<rparr>" by (rule add_match_match_of)
    from body Some have "g ?self1 c sc st t f (pos + length t) = Some y" by simp
    from IH[OF this] obtain new where
      y: "y = ?self1\<lparr>matches := matches ?self1 @ new\<rparr>" and
      q: "\<forall>m\<in>set new. file_name m = f \<and> sublist (match_context m) c" and
      r: "\<forall>ms. exact_loop (?self1\<lparr>matches := ms\<rparr>) c sc st t f (pos + length t) =
                   Some (?self1\<lparr>matches := ms @ new\<rparr>)" by blast
    have e_ok: "file_name ?e = f \<and> sublist (match_context ?e) c"
      by (simp add: match_of_def py_slice_def Let_def
            sublist_order.order.trans[OF sublist_take sublist_drop])
    have y': "y = self\<lparr>matches := matches self @ (?e # new)\<rparr>"
      unfolding y s1 by simp
    have "\<forall>ms. exact_loop (self\<lparr>matches := ms\<rparr>) c sc st t f start =
                   Some (self\<lparr>matches := ms @ (?e # new)\<rparr>)"
    proof
      fix ms
      have "exact_loop (self\<lparr>matches := ms\<rparr>) c sc st t f start =
            exact_loop (add_match (self\<lparr>matches := ms\<rparr>) c (int pos) (int pos + int (length t)) t f
               ''exact_match'') c sc st t f (pos + length t)"
        by (rule exact_loop_Some_step[OF Some])
      also have "add_match (self\<lparr>matches := ms\<rparr>) c (int pos) (int pos + int (length t)) t f
               ''exact_match'' = ?self1\<lparr>matches := ms @ [?e]\<rparr>"
        by (simp add: add_match_match_of)
      also have "exact_loop (?self1\<lparr>matches := ms @ [?e]\<rparr>) c sc st t f (pos + length t) =
            Some (?self1\<lparr>matches := (ms @ [?e]) @ new\<rparr>)"
        using r by blast
      also have "?self1\<lparr>matches := (ms @ [?e]) @ new\<rparr> = self\<lparr>matches := ms @ (?e # new)\<rparr>"
        by (simp add: add_match_match_of)
      finally show "exact_loop (self\<lparr>matches := ms\<rparr>) c sc st t f start =
                   Some (self\<lparr>matches := ms @ (?e # new)\<rparr>)" .
    qed
    with y' q e_ok show ?thesis by (intro exI[of _ "?e # new"]) simp
  qed
qed

text \<open>
  Whatever text is searched, the contexts of the entries an exact match appends are taken
  from \<open>content\<close>, the original text.
\<close>

lemma exact_match_contexts_from_content:
  assumes "exact_match lower self c sc t f cs = Some y"
  shows "\<exists>new. matches y = matches self @ new \<and>
           (\<forall>m\<in>set new. file_name m = f \<and> sublist (match_context m) c)"
proof -
  from assms have "exact_loop self c sc (if cs then t else lower t) t f 0 = Some y"
    by (simp add: exact_match_def Let_def)
  from exact_loop_relocate[OF this] obtain new where
    "y = self\<lparr>matches := matches self @ new\<rparr>"
    "\<forall>m\<in>set new. file_name m = f \<and> sublist (match_context m) c" by blast
  then have "matches y = matches self @ new \<and>
           (\<forall>m\<in>set new. file_name m = f \<and> sublist (match_context m) c)" by simp
  then show ?thesis ..
qed












end
